theory Spec2Isabelle
  imports Main "HOL-Library.Signed_Division"
begin

section \<open>Machine integers, characters and the standard library\<close>

text \<open>
  \<open>int64_t\<close> values are integers in the range \<open>-2^63 ..< 2^63\<close>. The division and
  remainder of C++ truncate towards zero: they are \<open>sdiv\<close> and \<open>smod\<close>. Signed
  overflow of \<open>+\<close> and \<open>*\<close> is undefined in C++; the model writes out the two's
  complement wrap-around that compiled code performs.
\<close>

definition int64 :: "int \<Rightarrow> bool" where
  "int64 x = (- (2 ^ 63) \<le> x \<and> x < 2 ^ 63)"

definition wrap64 :: "int \<Rightarrow> int" where
  "wrap64 x = (x + 2 ^ 63) mod 2 ^ 64 - 2 ^ 63"

text \<open>\<open>isdigit\<close> and \<open>isalpha\<close> of \<open><cctype>\<close> in the "C" locale.\<close>

definition isdigit :: "char \<Rightarrow> bool" where
  "isdigit c = (let n = (of_char c :: nat) in 48 \<le> n \<and> n \<le> 57)"

definition isalpha :: "char \<Rightarrow> bool" where
  "isalpha c = (let n = (of_char c :: nat) in (65 \<le> n \<and> n \<le> 90) \<or> (97 \<le> n \<and> n \<le> 122))"

text \<open>
  \<open>std::format("{}", n)\<close> for an integer: the decimal digits, most significant first,
  after a minus sign when \<open>n\<close> is negative.
\<close>

definition digit_char :: "nat \<Rightarrow> char" where
  "digit_char d =
     (if d = 0 then CHR ''0'' else if d = 1 then CHR ''1'' else if d = 2 then CHR ''2''
      else if d = 3 then CHR ''3'' else if d = 4 then CHR ''4'' else if d = 5 then CHR ''5''
      else if d = 6 then CHR ''6'' else if d = 7 then CHR ''7'' else if d = 8 then CHR ''8''
      else CHR ''9'')"

fun format_nat :: "nat \<Rightarrow> string" where
  "format_nat n = (if n < 10 then [digit_char n] else format_nat (n div 10) @ [digit_char (n mod 10)])"

declare format_nat.simps [simp del]

definition format_int :: "int \<Rightarrow> string" where
  "format_int x = (if x < 0 then CHR ''-'' # format_nat (nat (- x)) else format_nat (nat x))"

text \<open>
  \<open>std::stoll\<close> on the text the scanner hands it, which starts with a digit: the
  leading digit run is read in base 10; \<open>std::invalid_argument\<close> when there is no
  digit to convert, \<open>std::out_of_range\<close> when the value exceeds \<open>LLONG_MAX\<close>.
\<close>

datatype error = InvalidArgument | OutOfRange

definition digit_value :: "char \<Rightarrow> int" where
  "digit_value c = of_char c - 48"

fun decimal_value :: "int \<Rightarrow> string \<Rightarrow> int" where
  "decimal_value acc [] = acc"
| "decimal_value acc (c # cs) = decimal_value (acc * 10 + digit_value c) cs"

definition stoll :: "string \<Rightarrow> error + int" where
  "stoll s =
     (let ds = takeWhile isdigit s in
      if ds = [] then Inl InvalidArgument
      else if decimal_value 0 ds > 2 ^ 63 - 1 then Inl OutOfRange
      else Inr (decimal_value 0 ds))"

text \<open>\<open>std::string::substr(pos, n)\<close>, for \<open>pos\<close> within the string.\<close>

definition substr :: "string \<Rightarrow> nat \<Rightarrow> nat \<Rightarrow> string" where
  "substr s pos n = take n (drop pos s)"

section \<open>The two maps of the scanner\<close>

text \<open>
  \<open>TokenHolder\<close> is \<open>std::map<std::string, int64_t>\<close>, \<open>ResultHolder\<close> is
  \<open>std::map<int64_t, int64_t>\<close>. Both are association lists; the result holder is
  kept in ascending key order, the order in which \<open>Parse\<close> iterates over it.
\<close>

type_synonym TokenHolder = "(string \<times> int) list"
type_synonym ResultHolder = "(int \<times> int) list"

definition contains :: "('k \<times> 'v) list \<Rightarrow> 'k \<Rightarrow> bool" where
  "contains m k = (map_of m k \<noteq> None)"

text \<open>\<open>operator[]\<close> read at a key; a missing key reads as the value-initialised 0.\<close>

definition index :: "('k \<times> int) list \<Rightarrow> 'k \<Rightarrow> int" where
  "index m k = (case map_of m k of Some v \<Rightarrow> v | None \<Rightarrow> 0)"

text \<open>\<open>m[k] += v\<close> at a key that is present.\<close>

fun add_at :: "int \<Rightarrow> int \<Rightarrow> ResultHolder \<Rightarrow> ResultHolder" where
  "add_at k v [] = []"
| "add_at k v ((k', v') # m) =
     (if k' = k then (k', wrap64 (v' + v)) # m else (k', v') # add_at k v m)"

text \<open>\<open>m.emplace(k, v)\<close> at a key that is absent: the entry goes to its place in key order.\<close>

fun emplace :: "int \<Rightarrow> int \<Rightarrow> ResultHolder \<Rightarrow> ResultHolder" where
  "emplace k v [] = [(k, v)]"
| "emplace k v ((k', v') # m) =
     (if k < k' then (k, v) # (k', v') # m
      else if k = k' then (k', v') # m
      else (k', v') # emplace k v m)"

section \<open>The duration value\<close>

record CTimePeriod =
  m_TotalDuration :: int
  m_Days :: int
  m_Hours :: int
  m_Minutes :: int
  m_Seconds :: int

definition Validate :: "CTimePeriod \<Rightarrow> CTimePeriod" where
  "Validate p =
     (let TotalSeconds = m_TotalDuration p;
          p = p\<lparr>m_Days := TotalSeconds sdiv 86400\<rparr>;
          TotalSeconds = TotalSeconds smod 86400;
          p = p\<lparr>m_Hours := TotalSeconds sdiv 3600\<rparr>;
          TotalSeconds = TotalSeconds smod 3600;
          p = p\<lparr>m_Minutes := TotalSeconds sdiv 60\<rparr>
      in p\<lparr>m_Seconds := TotalSeconds smod 60\<rparr>)"

text \<open>The members' default initialisers: every field is 0 before a constructor body runs.\<close>

definition initial :: CTimePeriod where
  "initial = \<lparr>m_TotalDuration = 0, m_Days = 0, m_Hours = 0, m_Minutes = 0, m_Seconds = 0\<rparr>"

text \<open>
  The constructor from components. \<open>std::chrono\<close> converts minutes, hours and days to
  seconds by multiplying the 64-bit count, and adds from left to right.
\<close>

definition CTimePeriod_components :: "int \<Rightarrow> int \<Rightarrow> int \<Rightarrow> int \<Rightarrow> CTimePeriod" where
  "CTimePeriod_components s m h d =
     Validate (initial\<lparr>m_TotalDuration :=
       wrap64 (wrap64 (wrap64 (s + wrap64 (m * 60)) + wrap64 (h * 3600)) + wrap64 (d * 86400))\<rparr>)"

text \<open>The constructor from \<open>std::chrono::seconds\<close>.\<close>

definition CTimePeriod_seconds :: "int \<Rightarrow> CTimePeriod" where
  "CTimePeriod_seconds duration = Validate (initial\<lparr>m_TotalDuration := duration\<rparr>)"

definition duration :: "CTimePeriod \<Rightarrow> int" where "duration p = m_TotalDuration p"
definition days :: "CTimePeriod \<Rightarrow> int" where "days p = m_Days p"
definition hours :: "CTimePeriod \<Rightarrow> int" where "hours p = m_Hours p"
definition minutes :: "CTimePeriod \<Rightarrow> int" where "minutes p = m_Minutes p"
definition seconds :: "CTimePeriod \<Rightarrow> int" where "seconds p = m_Seconds p"

definition isZero :: "CTimePeriod \<Rightarrow> bool" where
  "isZero p = (m_TotalDuration p = 0)"

definition asSqlInterval :: "CTimePeriod \<Rightarrow> string" where
  "asSqlInterval p = ''interval '' @ format_int (m_TotalDuration p) @ '' second''"

definition toString :: "CTimePeriod \<Rightarrow> string" where
  "toString p =
     (let result = [];
          result = (if m_Days p > 0 then result @ format_int (m_Days p) @ ''d '' else result);
          result = (if m_Hours p > 0 then result @ format_int (m_Hours p) @ ''h '' else result);
          result = (if m_Minutes p > 0 then result @ format_int (m_Minutes p) @ ''m '' else result)
      in if m_Seconds p > 0 \<or> result = [] then result @ format_int (m_Seconds p) @ ''s'' else result)"

section \<open>The scanner\<close>

text \<open>
  The positions \<open>m_Start\<close> and \<open>m_Current\<close> are \<open>int\<close> in the source and never
  negative; they are natural numbers here, for sources shorter than \<open>2^31\<close> characters.
\<close>

record CScanner =
  m_Source :: string
  m_Tokens :: TokenHolder
  m_Result :: ResultHolder
  m_Start :: nat
  m_Current :: nat

definition CScanner_init :: "string \<Rightarrow> TokenHolder \<Rightarrow> CScanner" where
  "CScanner_init Source Multipliers =
     \<lparr>m_Source = Source, m_Tokens = Multipliers, m_Result = [], m_Start = 0, m_Current = 0\<rparr>"

definition AtEnd :: "CScanner \<Rightarrow> bool" where
  "AtEnd s = (m_Current s \<ge> length (m_Source s))"

text \<open>
  \<open>m_Source[m_Current++]\<close>: the character read and the scanner after the increment.
  \<open>std::string::operator[]\<close> at the length of the string reads the terminating NUL.
\<close>

definition Advance :: "CScanner \<Rightarrow> char \<times> CScanner" where
  "Advance s =
     ((if m_Current s < length (m_Source s) then m_Source s ! m_Current s else CHR 0x00),
      s\<lparr>m_Current := m_Current s + 1\<rparr>)"

definition Peek :: "CScanner \<Rightarrow> char" where
  "Peek s = (if AtEnd s then CHR 0x00 else m_Source s ! m_Current s)"

lemma isdigit_Peek_less: "isdigit (Peek s) \<Longrightarrow> m_Current s < length (m_Source s)"
  by (auto simp: Peek_def AtEnd_def isdigit_def split: if_splits)

lemma isalpha_Peek_less: "isalpha (Peek s) \<Longrightarrow> m_Current s < length (m_Source s)"
  by (auto simp: Peek_def AtEnd_def isalpha_def split: if_splits)

text \<open>The loop \<open>while (isdigit(Peek())) Advance();\<close> of \<open>ScanToken\<close>.\<close>

function ScanDigits :: "CScanner \<Rightarrow> CScanner" where
  "ScanDigits s = (if isdigit (Peek s) then ScanDigits (snd (Advance s)) else s)"
  by pat_completeness auto
termination
  by (relation "measure (\<lambda>s. length (m_Source s) - m_Current s)")
     (auto simp: Advance_def dest: isdigit_Peek_less)

text \<open>The loop \<open>while (isalpha(Peek())) Advance();\<close> of \<open>ScanToken\<close>.\<close>

function ScanAlpha :: "CScanner \<Rightarrow> CScanner" where
  "ScanAlpha s = (if isalpha (Peek s) then ScanAlpha (snd (Advance s)) else s)"
  by pat_completeness auto
termination
  by (relation "measure (\<lambda>s. length (m_Source s) - m_Current s)")
     (auto simp: Advance_def dest: isalpha_Peek_less)

declare ScanDigits.simps [simp del] ScanAlpha.simps [simp del]

text \<open>\<open>AddValue(int64_t Multiplier, int64_t Value)\<close>.\<close>

definition AddValue :: "int \<Rightarrow> int \<Rightarrow> CScanner \<Rightarrow> CScanner" where
  "AddValue Multiplier Value s =
     (if contains (m_Result s) Multiplier
      then s\<lparr>m_Result := add_at Multiplier Value (m_Result s)\<rparr>
      else s\<lparr>m_Result := emplace Multiplier Value (m_Result s)\<rparr>)"

text \<open>\<open>AddValue(std::string_view Literal, int64_t Value)\<close>.\<close>

definition AddValue_Literal :: "string \<Rightarrow> int \<Rightarrow> CScanner \<Rightarrow> CScanner" where
  "AddValue_Literal Literal Value s =
     (if contains (m_Tokens s) Literal
      then AddValue (index (m_Tokens s) Literal) Value s
      else s)"

text \<open>
  \<open>ScanToken\<close>. The argument \<open>std::stoll(Value)\<close> is evaluated before either
  \<open>AddValue\<close> is entered, so its exception leaves the scan whatever the literal is.
\<close>

definition ScanToken :: "CScanner \<Rightarrow> error + CScanner" where
  "ScanToken s =
     (let (c, s) = Advance s in
      if isdigit c then
        (let s = ScanDigits s;
             Value = substr (m_Source s) (m_Start s) (m_Current s - m_Start s);
             Offset = m_Current s;
             s = ScanAlpha s;
             Literal = substr (m_Source s) Offset (m_Current s - Offset)
         in if Literal = []
            then (case stoll Value of Inl e \<Rightarrow> Inl e | Inr v \<Rightarrow> Inr (AddValue 60 v s))
            else (case stoll Value of Inl e \<Rightarrow> Inl e | Inr v \<Rightarrow> Inr (AddValue_Literal Literal v s)))
      else Inr s)"

lemma ScanDigits_frame:
  "m_Source (ScanDigits s) = m_Source s \<and> m_Current s \<le> m_Current (ScanDigits s)
   \<and> m_Tokens (ScanDigits s) = m_Tokens s \<and> m_Result (ScanDigits s) = m_Result s
   \<and> m_Start (ScanDigits s) = m_Start s"
proof (induction s rule: ScanDigits.induct)
  case (1 s)
  show ?case
  proof (cases "isdigit (Peek s)")
    case True
    with 1 show ?thesis
      by (subst (1 2 3 4 5) ScanDigits.simps) (simp add: Advance_def)
  next
    case False
    then show ?thesis by (simp add: ScanDigits.simps)
  qed
qed

lemma ScanAlpha_frame:
  "m_Source (ScanAlpha s) = m_Source s \<and> m_Current s \<le> m_Current (ScanAlpha s)
   \<and> m_Tokens (ScanAlpha s) = m_Tokens s \<and> m_Result (ScanAlpha s) = m_Result s
   \<and> m_Start (ScanAlpha s) = m_Start s"
proof (induction s rule: ScanAlpha.induct)
  case (1 s)
  show ?case
  proof (cases "isalpha (Peek s)")
    case True
    with 1 show ?thesis
      by (subst (1 2 3 4 5) ScanAlpha.simps) (simp add: Advance_def)
  next
    case False
    then show ?thesis by (simp add: ScanAlpha.simps)
  qed
qed

lemma AddValue_frame:
  "m_Source (AddValue k v s) = m_Source s \<and> m_Current (AddValue k v s) = m_Current s
   \<and> m_Tokens (AddValue k v s) = m_Tokens s \<and> m_Start (AddValue k v s) = m_Start s"
  by (simp add: AddValue_def)

lemma AddValue_Literal_frame:
  "m_Source (AddValue_Literal l v s) = m_Source s \<and> m_Current (AddValue_Literal l v s) = m_Current s
   \<and> m_Tokens (AddValue_Literal l v s) = m_Tokens s \<and> m_Start (AddValue_Literal l v s) = m_Start s"
  by (simp add: AddValue_Literal_def AddValue_frame)

lemma ScanToken_progress:
  assumes "ScanToken s = Inr s'"
  shows "m_Source s' = m_Source s \<and> m_Current s < m_Current s' \<and> m_Tokens s' = m_Tokens s"
proof -
  let ?a = "snd (Advance s)"
  let ?d = "ScanDigits ?a"
  let ?l = "ScanAlpha ?d"
  have a: "m_Source ?a = m_Source s" "m_Current ?a = m_Current s + 1" "m_Tokens ?a = m_Tokens s"
    by (simp_all add: Advance_def)
  have l: "m_Source ?l = m_Source s" "m_Current s < m_Current ?l" "m_Tokens ?l = m_Tokens s"
    using ScanDigits_frame [of ?a] ScanAlpha_frame [of ?d] a by auto
  from assms have "s' = ?a \<or> (\<exists>k v. s' = AddValue k v ?l) \<or> (\<exists>x v. s' = AddValue_Literal x v ?l)"
    by (auto simp: ScanToken_def Let_def split: prod.splits if_splits sum.splits)
  then show ?thesis
    using a l by (auto simp: AddValue_frame AddValue_Literal_frame)
qed

text \<open>\<open>ScanTokens\<close>: the loop runs \<open>ScanToken\<close> until the source is exhausted.\<close>

function ScanTokens :: "CScanner \<Rightarrow> error + ResultHolder" where
  "ScanTokens s =
     (if \<not> AtEnd s
      then (case ScanToken (s\<lparr>m_Start := m_Current s\<rparr>) of
              Inl e \<Rightarrow> Inl e
            | Inr s' \<Rightarrow> ScanTokens s')
      else Inr (m_Result s))"
  by pat_completeness auto
termination
proof (relation "measure (\<lambda>s. length (m_Source s) - m_Current s)")
  show "wf (measure (\<lambda>s. length (m_Source s) - m_Current s))" by simp
next
  fix s s'
  assume "\<not> AtEnd s" and "ScanToken (s\<lparr>m_Start := m_Current s\<rparr>) = Inr s'"
  then show "(s', s) \<in> measure (\<lambda>s. length (m_Source s) - m_Current s)"
    using ScanToken_progress [of "s\<lparr>m_Start := m_Current s\<rparr>" s']
    by (simp add: AtEnd_def) arith
qed

declare ScanTokens.simps [simp del]

section \<open>Parsing and the constructor from text\<close>

definition unit_table :: TokenHolder where
  "unit_table =
     [(''s'', 1), (''seconds'', 1),
      (''m'', 60), (''minutes'', 60),
      (''h'', 3600), (''hours'', 3600),
      (''d'', 86400), (''days'', 86400),
      (''mo'', 2419200), (''months'', 2419200),
      (''y'', 31536000), (''years'', 31536000)]"

definition total_of :: "ResultHolder \<Rightarrow> int" where
  "total_of Result =
     fold (\<lambda>(Multiplier, Value) TotalDuration. wrap64 (TotalDuration + wrap64 (Multiplier * Value)))
       Result 0"

definition Parse :: "string \<Rightarrow> error + int" where
  "Parse from =
     (case ScanTokens (CScanner_init from unit_table) of
        Inl e \<Rightarrow> Inl e
      | Inr Result \<Rightarrow> Inr (total_of Result))"

definition CTimePeriod_string :: "string \<Rightarrow> error + CTimePeriod" where
  "CTimePeriod_string from =
     (case Parse from of
        Inl e \<Rightarrow> Inl e
      | Inr t \<Rightarrow> Inr (Validate (initial\<lparr>m_TotalDuration := t\<rparr>)))"

definition ParseFactory :: "string \<Rightarrow> error + CTimePeriod" where
  "ParseFactory from =
     (case Parse from of Inl e \<Rightarrow> Inl e | Inr t \<Rightarrow> Inr (CTimePeriod_seconds t))"

section \<open>Comparison\<close>

text \<open>
  \<open>operator<=>\<close> is defaulted: the members are compared in the order of their
  declaration, and the first pair that differs decides. The defaulted \<open>operator==\<close>
  that comes with it compares the members for equality, and \<open>a < b\<close> is rewritten to
  \<open>(a <=> b) < 0\<close>.
\<close>

datatype strong_ordering = Less | Equal | Greater

definition compare_int :: "int \<Rightarrow> int \<Rightarrow> strong_ordering" where
  "compare_int a b = (if a < b then Less else if a = b then Equal else Greater)"

definition spaceship :: "CTimePeriod \<Rightarrow> CTimePeriod \<Rightarrow> strong_ordering" where
  "spaceship a b =
     (if compare_int (m_TotalDuration a) (m_TotalDuration b) \<noteq> Equal
        then compare_int (m_TotalDuration a) (m_TotalDuration b)
      else if compare_int (m_Days a) (m_Days b) \<noteq> Equal
        then compare_int (m_Days a) (m_Days b)
      else if compare_int (m_Hours a) (m_Hours b) \<noteq> Equal
        then compare_int (m_Hours a) (m_Hours b)
      else if compare_int (m_Minutes a) (m_Minutes b) \<noteq> Equal
        then compare_int (m_Minutes a) (m_Minutes b)
      else compare_int (m_Seconds a) (m_Seconds b))"

definition operator_eq :: "CTimePeriod \<Rightarrow> CTimePeriod \<Rightarrow> bool" where
  "operator_eq a b =
     (m_TotalDuration a = m_TotalDuration b \<and> m_Days a = m_Days b \<and> m_Hours a = m_Hours b
      \<and> m_Minutes a = m_Minutes b \<and> m_Seconds a = m_Seconds b)"

definition operator_less :: "CTimePeriod \<Rightarrow> CTimePeriod \<Rightarrow> bool" where
  "operator_less a b = (spaceship a b = Less)"

section \<open>Constructed values\<close>

text \<open>
  The values a program can hold: those returned by one of the three constructors, on
  64-bit arguments.
\<close>

inductive constructed :: "CTimePeriod \<Rightarrow> bool" where
  from_components:
    "int64 s \<Longrightarrow> int64 m \<Longrightarrow> int64 h \<Longrightarrow> int64 d \<Longrightarrow> constructed (CTimePeriod_components s m h d)"
| from_string:
    "CTimePeriod_string from = Inr p \<Longrightarrow> constructed p"
| from_seconds:
    "int64 t \<Longrightarrow> constructed (CTimePeriod_seconds t)"

section \<open>The scanner as a function of the unread text\<close>

text \<open>
  What \<open>ScanTokens\<close> computes depends only on the unit table, the text from
  \<open>m_Current\<close> on and the result holder. \<open>scan_text\<close> is that function, by
  recursion on the unread text; \<open>ScanTokens_scan_text\<close> below proves that the scanner
  computes it.
\<close>

definition accumulate :: "TokenHolder \<Rightarrow> string \<Rightarrow> int \<Rightarrow> ResultHolder \<Rightarrow> ResultHolder" where
  "accumulate tk lit v r =
     (let k = (if lit = [] then Some 60 else map_of tk lit) in
      case k of
        None \<Rightarrow> r
      | Some k \<Rightarrow> if contains r k then add_at k v r else emplace k v r)"

function scan_text :: "TokenHolder \<Rightarrow> string \<Rightarrow> ResultHolder \<Rightarrow> error + ResultHolder" where
  "scan_text tk [] r = Inr r"
| "scan_text tk (c # cs) r =
     (if isdigit c then
        (case stoll (c # takeWhile isdigit cs) of
           Inl e \<Rightarrow> Inl e
         | Inr v \<Rightarrow>
             scan_text tk (dropWhile isalpha (dropWhile isdigit cs))
               (accumulate tk (takeWhile isalpha (dropWhile isdigit cs)) v r))
      else scan_text tk cs r)"
  by pat_completeness auto
termination
  by (relation "measure (\<lambda>(tk, cs, r). length cs)")
     (auto simp: less_Suc_eq_le intro: order_trans [OF length_dropWhile_le length_dropWhile_le])

section \<open>The scanner computes \<open>scan_text\<close>\<close>

lemma Peek_drop:
  "drop (m_Current s) (m_Source s) = c # cs \<Longrightarrow> Peek s = c"
  by (metis AtEnd_def Peek_def drop_all hd_drop_conv_nth list.sel(1) list.simps(3) not_le)

lemma Peek_end:
  "drop (m_Current s) (m_Source s) = [] \<Longrightarrow> Peek s = CHR 0x00"
  by (simp add: Peek_def AtEnd_def)

lemma drop_Suc_tail: "drop n xs = c # cs \<Longrightarrow> drop (Suc n) xs = cs"
  by (metis drop_Suc tl_drop list.sel(3))

lemma ScanDigits_eq:
  "ScanDigits s = s\<lparr>m_Current := m_Current s + length (takeWhile isdigit (drop (m_Current s) (m_Source s)))\<rparr>"
proof (induction s rule: ScanDigits.induct)
  case (1 s)
  show ?case
  proof (cases "drop (m_Current s) (m_Source s)")
    case Nil
    then have "\<not> isdigit (Peek s)" by (simp add: Peek_end isdigit_def)
    with Nil show ?thesis by (simp add: ScanDigits.simps)
  next
    case (Cons c cs)
    show ?thesis
    proof (cases "isdigit c")
      case True
      then have p: "isdigit (Peek s)" using Cons by (simp add: Peek_drop)
      have "ScanDigits s = ScanDigits (snd (Advance s))"
        using p by (subst ScanDigits.simps) simp
      also have "\<dots> = (snd (Advance s))\<lparr>m_Current := m_Current (snd (Advance s))
          + length (takeWhile isdigit (drop (m_Current (snd (Advance s))) (m_Source (snd (Advance s)))))\<rparr>"
        using 1 [OF p] .
      finally show ?thesis
        using Cons True by (simp add: Advance_def drop_Suc_tail)
    next
      case False
      then have "\<not> isdigit (Peek s)" using Cons by (simp add: Peek_drop)
      with Cons False show ?thesis by (simp add: ScanDigits.simps)
    qed
  qed
qed

lemma ScanAlpha_eq:
  "ScanAlpha s = s\<lparr>m_Current := m_Current s + length (takeWhile isalpha (drop (m_Current s) (m_Source s)))\<rparr>"
proof (induction s rule: ScanAlpha.induct)
  case (1 s)
  show ?case
  proof (cases "drop (m_Current s) (m_Source s)")
    case Nil
    then have "\<not> isalpha (Peek s)" by (simp add: Peek_end isalpha_def)
    with Nil show ?thesis by (simp add: ScanAlpha.simps)
  next
    case (Cons c cs)
    show ?thesis
    proof (cases "isalpha c")
      case True
      then have p: "isalpha (Peek s)" using Cons by (simp add: Peek_drop)
      have "ScanAlpha s = ScanAlpha (snd (Advance s))"
        using p by (subst ScanAlpha.simps) simp
      also have "\<dots> = (snd (Advance s))\<lparr>m_Current := m_Current (snd (Advance s))
          + length (takeWhile isalpha (drop (m_Current (snd (Advance s))) (m_Source (snd (Advance s)))))\<rparr>"
        using 1 [OF p] .
      finally show ?thesis
        using Cons True by (simp add: Advance_def drop_Suc_tail)
    next
      case False
      then have "\<not> isalpha (Peek s)" using Cons by (simp add: Peek_drop)
      with Cons False show ?thesis by (simp add: ScanAlpha.simps)
    qed
  qed
qed


lemma take_length_takeWhile: "take (length (takeWhile P cs)) cs = takeWhile P cs"
  by (rule takeWhile_eq_take [symmetric])

lemma accumulate_AddValue:
  "m_Result (AddValue 60 v s) = accumulate (m_Tokens s) [] v (m_Result s)"
  by (simp add: accumulate_def AddValue_def)

lemma accumulate_AddValue_Literal:
  "lit \<noteq> [] \<Longrightarrow> m_Result (AddValue_Literal lit v s) = accumulate (m_Tokens s) lit v (m_Result s)"
  by (auto simp: accumulate_def AddValue_Literal_def AddValue_def contains_def index_def split: option.splits)

lemma ScanToken_eq:
  assumes d: "drop (m_Current s) (m_Source s) = c # cs" and st: "m_Start s = m_Current s"
  shows "ScanToken s =
    (if isdigit c then
       (case stoll (c # takeWhile isdigit cs) of
          Inl e \<Rightarrow> Inl e
        | Inr v \<Rightarrow> Inr (s\<lparr>m_Current := m_Current s + 1 + length (takeWhile isdigit cs)
                + length (takeWhile isalpha (dropWhile isdigit cs)),
              m_Result := accumulate (m_Tokens s) (takeWhile isalpha (dropWhile isdigit cs)) v (m_Result s)\<rparr>))
     else Inr (s\<lparr>m_Current := m_Current s + 1\<rparr>))"
proof -
  let ?n = "length (takeWhile isdigit cs)"
  let ?rest = "dropWhile isdigit cs"
  let ?lit = "takeWhile isalpha ?rest"
  let ?a = "snd (Advance s)"
  let ?d = "ScanDigits ?a"
  let ?l = "ScanAlpha ?d"
  have lt: "m_Current s < length (m_Source s)"
    using d by (metis drop_all list.simps(3) not_le)
  have c: "fst (Advance s) = c"
    using d lt by (metis Advance_def fst_conv hd_drop_conv_nth list.sel(1))
  have a: "?a = s\<lparr>m_Current := m_Current s + 1\<rparr>" by (simp add: Advance_def)
  have da: "drop (m_Current ?a) (m_Source ?a) = cs"
    using d by (simp add: a drop_Suc_tail)
  have dd: "?d = s\<lparr>m_Current := m_Current s + 1 + ?n\<rparr>"
    by (subst ScanDigits_eq) (simp add: da, simp add: a)
  have drest: "drop (m_Current ?d) (m_Source ?d) = ?rest"
  proof -
    have "drop (m_Current s + 1 + ?n) (m_Source s) = drop ?n (drop (Suc (m_Current s)) (m_Source s))"
      by (simp add: add.commute)
    also have "\<dots> = drop ?n cs" using d by (simp add: drop_Suc_tail)
    also have "\<dots> = ?rest" by (simp add: dropWhile_eq_drop)
    finally show ?thesis by (simp add: dd)
  qed
  have ll: "?l = s\<lparr>m_Current := m_Current s + 1 + ?n + length ?lit\<rparr>"
    by (subst ScanAlpha_eq) (simp add: drest, simp add: dd)
  have val: "substr (m_Source ?d) (m_Start ?d) (m_Current ?d - m_Start ?d) = c # takeWhile isdigit cs"
    using d st by (simp add: dd substr_def take_length_takeWhile)
  have lit: "substr (m_Source ?l) (m_Current ?d) (m_Current ?l - m_Current ?d) = ?lit"
  proof -
    have "substr (m_Source ?l) (m_Current ?d) (m_Current ?l - m_Current ?d)
          = take (length ?lit) (drop (m_Current ?d) (m_Source ?d))"
      by (simp only: ll) (simp add: dd substr_def)
    also have "\<dots> = ?lit" by (simp only: drest takeWhile_eq_take [symmetric])
    finally show ?thesis .
  qed
  show ?thesis
  proof (cases "isdigit c")
    case False
    then show ?thesis using c by (simp add: ScanToken_def split_beta a)
  next
    case True
    have "ScanToken s =
      (if ?lit = []
       then (case stoll (c # takeWhile isdigit cs) of Inl e \<Rightarrow> Inl e | Inr v \<Rightarrow> Inr (AddValue 60 v ?l))
       else (case stoll (c # takeWhile isdigit cs) of Inl e \<Rightarrow> Inl e | Inr v \<Rightarrow> Inr (AddValue_Literal ?lit v ?l)))"
      unfolding ScanToken_def split_beta Let_def c val lit using True by simp
    also have "\<dots> = (case stoll (c # takeWhile isdigit cs) of
          Inl e \<Rightarrow> Inl e
        | Inr v \<Rightarrow> Inr (s\<lparr>m_Current := m_Current s + 1 + ?n + length ?lit,
              m_Result := accumulate (m_Tokens s) ?lit v (m_Result s)\<rparr>))"
    proof (cases "?lit = []")
      case True
      have "AddValue 60 v ?l = s\<lparr>m_Current := m_Current s + 1 + ?n + length ?lit,
              m_Result := accumulate (m_Tokens s) ?lit v (m_Result s)\<rparr>" for v
        using accumulate_AddValue [of v ?l] AddValue_frame [of 60 v ?l] True
        by (simp add: ll AddValue_def)
      then show ?thesis using True by (simp split: sum.splits)
    next
      case False
      have "AddValue_Literal ?lit v ?l = s\<lparr>m_Current := m_Current s + 1 + ?n + length ?lit,
              m_Result := accumulate (m_Tokens s) ?lit v (m_Result s)\<rparr>" for v
        using accumulate_AddValue_Literal [OF False, of v ?l] 
        by (auto simp: ll AddValue_Literal_def AddValue_def)
      then show ?thesis using False by (simp split: sum.splits)
    qed
    finally show ?thesis using True by simp
  qed
qed

lemma ScanTokens_scan_text:
  "ScanTokens s = scan_text (m_Tokens s) (drop (m_Current s) (m_Source s)) (m_Result s)"
proof (induction s rule: ScanTokens.induct)
  case (1 s)
  show ?case
  proof (cases "drop (m_Current s) (m_Source s)")
    case Nil
    then show ?thesis by (subst ScanTokens.simps) (simp add: AtEnd_def)
  next
    case (Cons c cs)
    let ?s = "s\<lparr>m_Start := m_Current s\<rparr>"
    have ne: "\<not> AtEnd s" using Cons by (auto simp: AtEnd_def)
    have tok: "ScanToken ?s =
      (if isdigit c then
       (case stoll (c # takeWhile isdigit cs) of
          Inl e \<Rightarrow> Inl e
        | Inr v \<Rightarrow> Inr (?s\<lparr>m_Current := m_Current ?s + 1 + length (takeWhile isdigit cs)
                + length (takeWhile isalpha (dropWhile isdigit cs)),
              m_Result := accumulate (m_Tokens ?s) (takeWhile isalpha (dropWhile isdigit cs)) v (m_Result ?s)\<rparr>))
       else Inr (?s\<lparr>m_Current := m_Current ?s + 1\<rparr>))"
      by (rule ScanToken_eq) (simp_all add: Cons)
    have d1: "drop (m_Current s + 1) (m_Source s) = cs"
      using Cons by (simp add: drop_Suc_tail)
    have d2: "drop (m_Current s + 1 + length (takeWhile isdigit cs)
                + length (takeWhile isalpha (dropWhile isdigit cs))) (m_Source s)
              = dropWhile isalpha (dropWhile isdigit cs)"
    proof -
      have "drop (m_Current s + 1 + length (takeWhile isdigit cs)
                + length (takeWhile isalpha (dropWhile isdigit cs))) (m_Source s)
          = drop (length (takeWhile isalpha (dropWhile isdigit cs)))
              (drop (length (takeWhile isdigit cs)) (drop (m_Current s + 1) (m_Source s)))"
        by (simp add: add.commute add.left_commute)
      also have "\<dots> = dropWhile isalpha (dropWhile isdigit cs)"
        by (simp only: d1 dropWhile_eq_drop [symmetric])
      finally show ?thesis .
    qed
    show ?thesis
    proof (cases "isdigit c")
      case False
      have t: "ScanToken ?s = Inr (?s\<lparr>m_Current := m_Current ?s + 1\<rparr>)"
        using tok False by simp
      have "ScanTokens s = ScanTokens (?s\<lparr>m_Current := m_Current ?s + 1\<rparr>)"
        using ne t by (subst ScanTokens.simps) simp
      also have "\<dots> = scan_text (m_Tokens s) cs (m_Result s)"
        using 1 [OF ne t] d1 by simp
      finally show ?thesis using Cons False by simp
    next
      case True
      show ?thesis
      proof (cases "stoll (c # takeWhile isdigit cs)")
        case (Inl e)
        then have "ScanToken ?s = Inl e" using tok True by simp
        then have "ScanTokens s = Inl e" using ne by (subst ScanTokens.simps) simp
        then show ?thesis using Cons True Inl by simp
      next
        case (Inr v)
        let ?s' = "?s\<lparr>m_Current := m_Current ?s + 1 + length (takeWhile isdigit cs)
                + length (takeWhile isalpha (dropWhile isdigit cs)),
              m_Result := accumulate (m_Tokens ?s) (takeWhile isalpha (dropWhile isdigit cs)) v (m_Result ?s)\<rparr>"
        have t: "ScanToken ?s = Inr ?s'" using tok True Inr by simp
        have "ScanTokens s = ScanTokens ?s'"
          using ne t by (subst ScanTokens.simps) simp
        also have "\<dots> = scan_text (m_Tokens s) (dropWhile isalpha (dropWhile isdigit cs))
             (accumulate (m_Tokens s) (takeWhile isalpha (dropWhile isdigit cs)) v (m_Result s))"
          using 1 [OF ne t] d2 by simp
        finally show ?thesis using Cons True Inr by simp
      qed
    qed
  qed
qed

lemma Parse_scan_text:
  "Parse from = (case scan_text unit_table from [] of Inl e \<Rightarrow> Inl e | Inr r \<Rightarrow> Inr (total_of r))"
  by (simp add: Parse_def ScanTokens_scan_text CScanner_init_def)

section \<open>Normalisation\<close>

lemma sdiv_nonneg: "0 \<le> a \<Longrightarrow> 0 < b \<Longrightarrow> a sdiv b = a div (b :: int)"
  by (cases "a = 0") (simp_all add: signed_divide_int_def)

lemma smod_nonneg: "0 \<le> a \<Longrightarrow> 0 < b \<Longrightarrow> a smod b = a mod (b :: int)"
  by (cases "a = 0") (simp_all add: signed_modulo_int_def)

lemma Validate_fields:
  "m_TotalDuration (Validate p) = m_TotalDuration p"
  "m_Days (Validate p) = m_TotalDuration p sdiv 86400"
  "m_Hours (Validate p) = (m_TotalDuration p smod 86400) sdiv 3600"
  "m_Minutes (Validate p) = ((m_TotalDuration p smod 86400) smod 3600) sdiv 60"
  "m_Seconds (Validate p) = ((m_TotalDuration p smod 86400) smod 3600) smod 60"
  by (simp_all add: Validate_def Let_def)

lemma Validate_identity:
  "m_Days (Validate p) * 86400 + m_Hours (Validate p) * 3600 + m_Minutes (Validate p) * 60
     + m_Seconds (Validate p) = m_TotalDuration p"
proof -
  let ?T = "m_TotalDuration p"
  let ?r1 = "?T smod 86400"
  let ?r2 = "?r1 smod 3600"
  have "?T sdiv 86400 * 86400 + ?r1 = ?T" by (rule sdiv_mult_smod_eq)
  moreover have "?r1 sdiv 3600 * 3600 + ?r2 = ?r1" by (rule sdiv_mult_smod_eq)
  moreover have "?r2 sdiv 60 * 60 + ?r2 smod 60 = ?r2" by (rule sdiv_mult_smod_eq)
  ultimately show ?thesis unfolding Validate_fields by linarith
qed

lemma Validate_nonneg:
  assumes "0 \<le> m_TotalDuration p"
  shows "m_Days (Validate p) = m_TotalDuration p div 86400"
    and "m_Hours (Validate p) = m_TotalDuration p mod 86400 div 3600"
    and "m_Minutes (Validate p) = m_TotalDuration p mod 86400 mod 3600 div 60"
    and "m_Seconds (Validate p) = m_TotalDuration p mod 86400 mod 3600 mod 60"
  using assms by (simp_all add: Validate_fields sdiv_nonneg smod_nonneg)

lemma Validate_bounds:
  assumes "0 \<le> m_TotalDuration p"
  shows "0 \<le> m_Days (Validate p)"
    and "0 \<le> m_Hours (Validate p) \<and> m_Hours (Validate p) < 24"
    and "0 \<le> m_Minutes (Validate p) \<and> m_Minutes (Validate p) < 60"
    and "0 \<le> m_Seconds (Validate p) \<and> m_Seconds (Validate p) < 60"
proof -
  let ?T = "m_TotalDuration p"
  show "0 \<le> m_Days (Validate p)"
    using assms by (simp add: Validate_nonneg pos_imp_zdiv_nonneg_iff)
  have "?T mod 86400 < 86400" by simp
  then have "?T mod 86400 div 3600 < 24" by linarith
  then show "0 \<le> m_Hours (Validate p) \<and> m_Hours (Validate p) < 24"
    using assms by (simp add: Validate_nonneg pos_imp_zdiv_nonneg_iff)
  have "?T mod 86400 mod 3600 < 3600" by simp
  then have "?T mod 86400 mod 3600 div 60 < 60" by linarith
  then show "0 \<le> m_Minutes (Validate p) \<and> m_Minutes (Validate p) < 60"
    using assms by (simp add: Validate_nonneg pos_imp_zdiv_nonneg_iff)
  show "0 \<le> m_Seconds (Validate p) \<and> m_Seconds (Validate p) < 60"
    using assms by (simp add: Validate_nonneg)
qed

lemma constructed_Validate:
  "constructed p \<Longrightarrow> \<exists>q. p = Validate q"
  by (induction rule: constructed.induct)
     (auto simp: CTimePeriod_components_def CTimePeriod_string_def CTimePeriod_seconds_def
           split: sum.splits)

lemma Validate_determined:
  "m_TotalDuration (Validate a) = m_TotalDuration (Validate b) \<Longrightarrow>
   m_Days (Validate a) = m_Days (Validate b) \<and> m_Hours (Validate a) = m_Hours (Validate b)
   \<and> m_Minutes (Validate a) = m_Minutes (Validate b) \<and> m_Seconds (Validate a) = m_Seconds (Validate b)"
  by (simp add: Validate_fields)


section \<open>Wrap-around\<close>

lemma wrap64_id: "int64 x \<Longrightarrow> wrap64 x = x"
  by (simp add: int64_def wrap64_def)

lemma wrap64_add_right: "wrap64 (a + wrap64 b) = wrap64 (a + b)"
proof -
  have "(a + ((b + 2 ^ 63) mod 2 ^ 64 - 2 ^ 63) + 2 ^ 63) mod 2 ^ 64
        = (a + (b + 2 ^ 63) mod 2 ^ 64) mod (2 ^ 64 :: int)"
    by (simp add: algebra_simps)
  also have "\<dots> = (a + (b + 2 ^ 63)) mod 2 ^ 64" by (rule mod_add_right_eq)
  finally show ?thesis by (simp add: wrap64_def algebra_simps)
qed

lemma wrap64_add_left: "wrap64 (wrap64 a + b) = wrap64 (a + b)"
  using wrap64_add_right [of b a] by (simp add: add.commute)

lemma wrap64_idem: "wrap64 (wrap64 a) = wrap64 a"
  using wrap64_add_right [of 0 a] by simp

lemma int64_wrap64: "int64 (wrap64 x)"
  by (simp add: int64_def wrap64_def)

section \<open>Claims on the duration value\<close>

text \<open>
  C3. Every constructed duration value whose total is non-negative, whichever of the
  three constructors built it, has components that add up to the total,
  \<open>days * 86400 + hours * 3600 + minutes * 60 + seconds = duration\<close>, with
  \<open>0 \<le> hours < 24\<close>, \<open>0 \<le> minutes < 60\<close>, \<open>0 \<le> seconds < 60\<close> and \<open>0 \<le> days\<close>.
\<close>

theorem C3_component_invariant:
  assumes "constructed p" and "0 \<le> duration p"
  shows "days p * 86400 + hours p * 3600 + minutes p * 60 + seconds p = duration p
         \<and> 0 \<le> hours p \<and> hours p < 24
         \<and> 0 \<le> minutes p \<and> minutes p < 60
         \<and> 0 \<le> seconds p \<and> seconds p < 60
         \<and> 0 \<le> days p"
proof -
  from assms(1) obtain q where p: "p = Validate q" using constructed_Validate by blast
  with assms(2) have q: "0 \<le> m_TotalDuration q" by (simp add: duration_def Validate_fields(1))
  show ?thesis
    unfolding p days_def hours_def minutes_def seconds_def duration_def
    using Validate_identity [of q] Validate_bounds [OF q] by (simp add: Validate_fields(1))
qed

theorem C3_component_invariant_witness:
  "constructed (CTimePeriod_components 15 30 2 1)
   \<and> duration (CTimePeriod_components 15 30 2 1) = 95415
   \<and> days (CTimePeriod_components 15 30 2 1) * 86400 + hours (CTimePeriod_components 15 30 2 1) * 3600
       + minutes (CTimePeriod_components 15 30 2 1) * 60 + seconds (CTimePeriod_components 15 30 2 1)
       = duration (CTimePeriod_components 15 30 2 1)
   \<and> hours (CTimePeriod_components 15 30 2 1) < 24
   \<and> minutes (CTimePeriod_components 15 30 2 1) < 60
   \<and> seconds (CTimePeriod_components 15 30 2 1) < 60"
proof -
  have c: "constructed (CTimePeriod_components 15 30 2 1)"
    by (rule from_components) (simp_all add: int64_def)
  have d: "duration (CTimePeriod_components 15 30 2 1) = 95415"
    by (simp add: duration_def CTimePeriod_components_def Validate_fields(1) wrap64_def)
  then have n: "0 \<le> duration (CTimePeriod_components 15 30 2 1)" by simp
  show ?thesis using C3_component_invariant [OF c n] c d by simp
qed

text \<open>
  C4. Equality and ordering of constructed duration values are decided by the total
  seconds alone: \<open>a == b\<close> exactly when the totals are equal and \<open>a < b\<close> exactly when
  the total of \<open>a\<close> is smaller, however \<open>a\<close> and \<open>b\<close> were constructed.
\<close>

theorem C4_comparison_by_total:
  assumes "constructed a" and "constructed b"
  shows "(operator_eq a b \<longleftrightarrow> duration a = duration b)
         \<and> (operator_less a b \<longleftrightarrow> duration a < duration b)"
proof -
  from assms obtain qa qb where a: "a = Validate qa" and b: "b = Validate qb"
    using constructed_Validate by blast
  have eq: "operator_eq a b \<longleftrightarrow> duration a = duration b"
    unfolding a b operator_eq_def duration_def using Validate_determined [of qa qb] by blast
  have "operator_less a b \<longleftrightarrow> duration a < duration b"
  proof (cases "duration a = duration b")
    case True
    then have "operator_eq a b" using eq by simp
    then show ?thesis using True
      by (simp add: operator_less_def spaceship_def compare_int_def operator_eq_def)
  next
    case False
    then show ?thesis
      by (simp add: operator_less_def spaceship_def compare_int_def duration_def)
  qed
  with eq show ?thesis by simp
qed

theorem C4_comparison_by_total_witness:
  "constructed (CTimePeriod_seconds 60) \<and> constructed (CTimePeriod_components 0 1 0 0)
   \<and> operator_eq (CTimePeriod_seconds 60) (CTimePeriod_components 0 1 0 0)
   \<and> \<not> operator_less (CTimePeriod_seconds 60) (CTimePeriod_components 0 1 0 0)"
proof -
  have a: "constructed (CTimePeriod_seconds 60)"
    by (rule from_seconds) (simp add: int64_def)
  have b: "constructed (CTimePeriod_components 0 1 0 0)"
    by (rule from_components) (simp_all add: int64_def)
  have d: "duration (CTimePeriod_seconds 60) = 60" "duration (CTimePeriod_components 0 1 0 0) = 60"
    by (simp_all add: duration_def CTimePeriod_seconds_def CTimePeriod_components_def
          Validate_fields(1) wrap64_def)
  show ?thesis using C4_comparison_by_total [OF a b] a b d by simp
qed

text \<open>
  C9. \<open>asSqlInterval\<close> returns \<open>interval N second\<close>, where \<open>N\<close> is the total seconds
  as stored, not the normalised components, and the word \<open>second\<close> is never plural;
  a value constructed from 90 seconds renders as \<open>interval 90 second\<close>.
\<close>

theorem C9_asSqlInterval:
  "asSqlInterval p = ''interval '' @ format_int (duration p) @ '' second''
   \<and> asSqlInterval (CTimePeriod_seconds t) = ''interval '' @ format_int t @ '' second''
   \<and> asSqlInterval (CTimePeriod_seconds 90) = ''interval 90 second''"
proof -
  have "format_int 90 = ''90''" by code_simp
  then show ?thesis
    by (simp add: asSqlInterval_def duration_def CTimePeriod_seconds_def Validate_fields(1))
qed

text \<open>
  C10. For every signed 64-bit total \<open>T\<close>, negative ones included, the value constructed
  from \<open>T\<close> satisfies \<open>days * 86400 + hours * 3600 + minutes * 60 + seconds = T\<close>, as
  integers and in 64-bit arithmetic; the bounds on hours, minutes and seconds hold
  when \<open>T\<close> is non-negative, and a negative \<open>T\<close> can give a negative component.
\<close>

theorem C10_truncating_identity:
  assumes "int64 T"
  shows "days (CTimePeriod_seconds T) * 86400 + hours (CTimePeriod_seconds T) * 3600
           + minutes (CTimePeriod_seconds T) * 60 + seconds (CTimePeriod_seconds T) = T
         \<and> wrap64 (wrap64 (wrap64 (wrap64 (days (CTimePeriod_seconds T) * 86400)
               + wrap64 (hours (CTimePeriod_seconds T) * 3600))
               + wrap64 (minutes (CTimePeriod_seconds T) * 60))
               + seconds (CTimePeriod_seconds T)) = T
         \<and> duration (CTimePeriod_seconds T) = T
         \<and> (0 \<le> T \<longrightarrow>
              0 \<le> hours (CTimePeriod_seconds T) \<and> hours (CTimePeriod_seconds T) < 24
              \<and> 0 \<le> minutes (CTimePeriod_seconds T) \<and> minutes (CTimePeriod_seconds T) < 60
              \<and> 0 \<le> seconds (CTimePeriod_seconds T) \<and> seconds (CTimePeriod_seconds T) < 60)
         \<and> seconds (CTimePeriod_seconds (- 1)) = - 1"
proof -
  let ?q = "initial\<lparr>m_TotalDuration := T\<rparr>"
  let ?p = "CTimePeriod_seconds T"
  have p: "?p = Validate ?q" by (simp add: CTimePeriod_seconds_def)
  have T: "m_TotalDuration ?q = T" by simp
  have id: "days ?p * 86400 + hours ?p * 3600 + minutes ?p * 60 + seconds ?p = T"
    unfolding p days_def hours_def minutes_def seconds_def
    using Validate_identity [of ?q] by simp
  have "wrap64 (wrap64 (wrap64 (wrap64 (days ?p * 86400) + wrap64 (hours ?p * 3600))
          + wrap64 (minutes ?p * 60)) + seconds ?p)
        = wrap64 (days ?p * 86400 + hours ?p * 3600 + minutes ?p * 60 + seconds ?p)"
    by (simp only: wrap64_add_left wrap64_add_right)
  also have "\<dots> = T" using id assms by (simp add: wrap64_id)
  finally have w: "wrap64 (wrap64 (wrap64 (wrap64 (days ?p * 86400) + wrap64 (hours ?p * 3600))
          + wrap64 (minutes ?p * 60)) + seconds ?p) = T" .
  have d: "duration ?p = T" by (simp add: p duration_def Validate_fields(1))
  have b: "0 \<le> T \<longrightarrow> 0 \<le> hours ?p \<and> hours ?p < 24 \<and> 0 \<le> minutes ?p \<and> minutes ?p < 60
             \<and> 0 \<le> seconds ?p \<and> seconds ?p < 60"
    unfolding p hours_def minutes_def seconds_def
    using Validate_bounds [of ?q] by simp
  have n: "seconds (CTimePeriod_seconds (- 1)) = - 1"
    by (simp add: seconds_def CTimePeriod_seconds_def Validate_fields signed_modulo_int_def)
  from id w d b n show ?thesis by blast
qed

theorem C10_truncating_identity_witness:
  "int64 (- 90061)
   \<and> days (CTimePeriod_seconds (- 90061)) = - 1 \<and> hours (CTimePeriod_seconds (- 90061)) = - 1
   \<and> minutes (CTimePeriod_seconds (- 90061)) = - 1 \<and> seconds (CTimePeriod_seconds (- 90061)) = - 1
   \<and> days (CTimePeriod_seconds (- 90061)) * 86400 + hours (CTimePeriod_seconds (- 90061)) * 3600
           + minutes (CTimePeriod_seconds (- 90061)) * 60 + seconds (CTimePeriod_seconds (- 90061))
      = - 90061
   \<and> int64 90061 \<and> (0 :: int) \<le> 90061
   \<and> days (CTimePeriod_seconds 90061) * 86400 + hours (CTimePeriod_seconds 90061) * 3600
           + minutes (CTimePeriod_seconds 90061) * 60 + seconds (CTimePeriod_seconds 90061)
      = 90061
   \<and> hours (CTimePeriod_seconds 90061) < 24 \<and> minutes (CTimePeriod_seconds 90061) < 60
   \<and> seconds (CTimePeriod_seconds 90061) < 60"
proof -
  have i: "int64 (- 90061)" "int64 90061" by (simp_all add: int64_def)
  have c: "days (CTimePeriod_seconds (- 90061)) = - 1" "hours (CTimePeriod_seconds (- 90061)) = - 1"
    "minutes (CTimePeriod_seconds (- 90061)) = - 1" "seconds (CTimePeriod_seconds (- 90061)) = - 1"
    by (simp_all add: days_def hours_def minutes_def seconds_def CTimePeriod_seconds_def
          Validate_fields signed_modulo_int_def signed_divide_int_def)
  show ?thesis
    using C10_truncating_identity [OF i(1)] C10_truncating_identity [OF i(2)] i c by simp
qed

section \<open>Claims on accumulation\<close>

lemma map_of_add_at:
  "map_of (add_at k v m) k' =
     (if k' = k then map_option (\<lambda>x. wrap64 (x + v)) (map_of m k) else map_of m k')"
  by (induction m) auto

lemmas scan_eval =
  isdigit_def isalpha_def stoll_def digit_value_def accumulate_def unit_table_def contains_def
  total_of_def wrap64_def

text \<open>
  C1. \<open>toString\<close> of a value with a zero seconds component and some other component
  ends in the space that follows the last component it emits: 90 minutes, from a raw
  total or from components, render as \<open>1h 30m\<close> followed by a space.
\<close>

theorem C1_toString_trailing_space:
  "toString (CTimePeriod_seconds 5400) = ''1h 30m ''
   \<and> toString (CTimePeriod_components 0 90 0 0) = ''1h 30m ''
   \<and> toString (CTimePeriod_seconds 5400) \<noteq> ''1h 30m''"
  by code_simp

text \<open>C2 as stated: the text \<open>1h 2h\<close> does not parse to 7200 seconds.\<close>

theorem C2_parse_1h_2h_counterexample: "Parse ''1h 2h'' \<noteq> Inr 7200"
  by (simp add: Parse_scan_text scan_eval)

text \<open>
  C2, amended. Parsing \<open>1h 2h\<close> yields 10800 seconds: the two tokens of one and two
  hours sum to three hours.
\<close>

theorem C2_parse_1h_2h: "Parse ''1h 2h'' = Inr 10800"
  by (simp add: Parse_scan_text scan_eval)

text \<open>
  C7. When the multiplier already has an accumulated value, \<open>AddValue\<close> adds the new
  value to it (in 64-bit arithmetic) and leaves every other entry as it was; the scan of
  \<open>1h 2h\<close> holds 3 under the multiplier 3600.
\<close>

theorem C7_AddValue_accumulates:
  assumes "map_of (m_Result s) Multiplier = Some old"
  shows "map_of (m_Result (AddValue Multiplier Value s)) Multiplier = Some (wrap64 (old + Value))
         \<and> (int64 (old + Value) \<longrightarrow>
              map_of (m_Result (AddValue Multiplier Value s)) Multiplier = Some (old + Value))
         \<and> (\<forall>k. k \<noteq> Multiplier \<longrightarrow>
              map_of (m_Result (AddValue Multiplier Value s)) k = map_of (m_Result s) k)
         \<and> ScanTokens (CScanner_init ''1h 2h'' unit_table) = Inr [(3600, 3)]"
proof -
  have c: "contains (m_Result s) Multiplier" using assms by (simp add: contains_def)
  have r: "m_Result (AddValue Multiplier Value s) = add_at Multiplier Value (m_Result s)"
    using c by (simp add: AddValue_def)
  have 1: "map_of (m_Result (AddValue Multiplier Value s)) Multiplier = Some (wrap64 (old + Value))"
    using assms by (simp add: r map_of_add_at)
  have 2: "int64 (old + Value) \<longrightarrow>
      map_of (m_Result (AddValue Multiplier Value s)) Multiplier = Some (old + Value)"
    using 1 by (simp add: wrap64_id)
  have 3: "\<forall>k. k \<noteq> Multiplier \<longrightarrow>
      map_of (m_Result (AddValue Multiplier Value s)) k = map_of (m_Result s) k"
    by (simp add: r map_of_add_at)
  have 4: "ScanTokens (CScanner_init ''1h 2h'' unit_table) = Inr [(3600, 3)]"
    by (simp add: ScanTokens_scan_text CScanner_init_def scan_eval)
  from 1 2 3 4 show ?thesis by blast
qed

theorem C7_AddValue_accumulates_witness:
  "map_of (m_Result (AddValue 3600 1 (AddValue 60 5 (CScanner_init ''5 1h 2h'' unit_table)))) 3600
     = Some 1
   \<and> int64 (1 + 2)
   \<and> map_of (m_Result (AddValue 3600 2
         (AddValue 3600 1 (AddValue 60 5 (CScanner_init ''5 1h 2h'' unit_table))))) 3600 = Some 3
   \<and> map_of (m_Result (AddValue 3600 2
         (AddValue 3600 1 (AddValue 60 5 (CScanner_init ''5 1h 2h'' unit_table))))) 60 = Some 5"
proof -
  let ?s = "AddValue 3600 1 (AddValue 60 5 (CScanner_init ''5 1h 2h'' unit_table))"
  have a: "map_of (m_Result ?s) 3600 = Some 1"
    by (simp add: AddValue_def CScanner_init_def contains_def)
  have b: "map_of (m_Result ?s) 60 = Some 5"
    by (simp add: AddValue_def CScanner_init_def contains_def)
  have i: "int64 (1 + 2)" by (simp add: int64_def)
  have w: "wrap64 3 = 3" by (simp add: wrap64_def)
  show ?thesis using C7_AddValue_accumulates [OF a, of 2] a b i w by simp
qed

section \<open>Digits and letters\<close>

lemma isdigit_not_isalpha: "isdigit c \<Longrightarrow> \<not> isalpha c"
  by (auto simp: isdigit_def isalpha_def Let_def)

lemma digit_char_isdigit: "d < 10 \<Longrightarrow> isdigit (digit_char d)"
  by (simp add: digit_char_def isdigit_def)

lemma digit_value_digit_char: "d < 10 \<Longrightarrow> digit_value (digit_char d) = int d"
  by (auto simp: digit_char_def digit_value_def)

lemma format_nat_digits: "c \<in> set (format_nat n) \<Longrightarrow> isdigit c"
proof (induction n arbitrary: c rule: format_nat.induct)
  case (1 n)
  show ?case
  proof (cases "n < 10")
    case True
    with "1.prems" show ?thesis by (simp add: format_nat.simps [of n] digit_char_isdigit)
  next
    case False
    with "1.prems" have "c \<in> set (format_nat (n div 10)) \<or> c = digit_char (n mod 10)"
      by (auto simp: format_nat.simps [of n])
    then show ?thesis using "1.IH" [OF False] by (auto simp: digit_char_isdigit)
  qed
qed

lemma format_nat_nonempty: "format_nat n \<noteq> []"
  by (simp add: format_nat.simps [of n])

lemma decimal_value_append:
  "decimal_value acc (xs @ ys) = decimal_value (decimal_value acc xs) ys"
  by (induction xs arbitrary: acc) simp_all

lemma decimal_value_format_nat: "decimal_value 0 (format_nat n) = int n"
proof (induction n rule: format_nat.induct)
  case (1 n)
  show ?case
  proof (cases "n < 10")
    case True
    then show ?thesis by (simp add: format_nat.simps [of n] digit_value_digit_char)
  next
    case False
    have "decimal_value 0 (format_nat n) = int (n div 10) * 10 + int (n mod 10)"
      using False "1.IH" [OF False]
      by (simp add: format_nat.simps [of n] decimal_value_append digit_value_digit_char)
    also have "\<dots> = int n" by (simp add: zdiv_int zmod_int)
    finally show ?thesis .
  qed
qed

lemma takeWhile_all_append:
  "\<forall>x\<in>set xs. P x \<Longrightarrow> ys = [] \<or> \<not> P (hd ys) \<Longrightarrow> takeWhile P (xs @ ys) = xs"
  by (auto simp: takeWhile_eq_Nil_iff)

lemma dropWhile_all_append:
  "\<forall>x\<in>set xs. P x \<Longrightarrow> ys = [] \<or> \<not> P (hd ys) \<Longrightarrow> dropWhile P (xs @ ys) = ys"
  by (cases ys) auto

lemma stoll_digits:
  assumes "ds \<noteq> []" and "\<forall>c\<in>set ds. isdigit c"
  shows "stoll ds =
    (if decimal_value 0 ds > 2 ^ 63 - 1 then Inl OutOfRange else Inr (decimal_value 0 ds))"
proof -
  have t: "takeWhile isdigit ds = ds" using assms(2) by simp
  show ?thesis unfolding stoll_def Let_def t using assms(1) by simp
qed

lemma stoll_format_int: "0 \<le> n \<Longrightarrow> n < 2 ^ 63 \<Longrightarrow> stoll (format_int n) = Inr n"
  using format_nat_digits [of _ "nat n"]
  by (simp add: format_int_def stoll_digits format_nat_nonempty decimal_value_format_nat)

section \<open>One token of the text\<close>

lemma scan_text_token:
  assumes ds: "ds \<noteq> []" "\<forall>c\<in>set ds. isdigit c"
    and lit: "\<forall>c\<in>set lit. isalpha c"
    and rest: "rest = [] \<or> (\<not> isalpha (hd rest) \<and> (lit = [] \<longrightarrow> \<not> isdigit (hd rest)))"
  shows "scan_text tk (ds @ lit @ rest) r =
    (case stoll ds of Inl e \<Rightarrow> Inl e | Inr v \<Rightarrow> scan_text tk rest (accumulate tk lit v r))"
proof -
  from ds obtain d ds' where d: "ds = d # ds'" by (cases ds) auto
  have nd: "lit @ rest = [] \<or> \<not> isdigit (hd (lit @ rest))"
    using lit rest by (cases lit) (auto dest: isdigit_not_isalpha)
  have na: "rest = [] \<or> \<not> isalpha (hd rest)" using rest by auto
  have 1: "takeWhile isdigit (ds' @ lit @ rest) = ds'"
    using ds d nd by (intro takeWhile_all_append) auto
  have 2: "dropWhile isdigit (ds' @ lit @ rest) = lit @ rest"
    using ds d nd by (intro dropWhile_all_append) auto
  have 3: "takeWhile isalpha (lit @ rest) = lit"
    using lit na by (intro takeWhile_all_append) auto
  have 4: "dropWhile isalpha (lit @ rest) = rest"
    using lit na by (intro dropWhile_all_append) auto
  have "isdigit d" using ds d by simp
  then show ?thesis by (simp add: d 1 2 3 4 split: sum.splits)
qed


lemma ScanToken_token:
  assumes d: "drop (m_Current s) (m_Source s) = ds @ lit @ rest" and st: "m_Start s = m_Current s"
    and ds: "ds \<noteq> []" "\<forall>c\<in>set ds. isdigit c"
    and lit: "\<forall>c\<in>set lit. isalpha c"
    and rest: "rest = [] \<or> (\<not> isalpha (hd rest) \<and> (lit = [] \<longrightarrow> \<not> isdigit (hd rest)))"
  shows "ScanToken s =
    (case stoll ds of
       Inl e \<Rightarrow> Inl e
     | Inr v \<Rightarrow> Inr (s\<lparr>m_Current := m_Current s + length ds + length lit,
                       m_Result := accumulate (m_Tokens s) lit v (m_Result s)\<rparr>))"
proof -
  from ds obtain c ds' where c: "ds = c # ds'" by (cases ds) auto
  have nd: "lit @ rest = [] \<or> \<not> isdigit (hd (lit @ rest))"
    using lit rest by (cases lit) (auto dest: isdigit_not_isalpha)
  have na: "rest = [] \<or> \<not> isalpha (hd rest)" using rest by auto
  have 1: "takeWhile isdigit (ds' @ lit @ rest) = ds'"
    using ds c nd by (intro takeWhile_all_append) auto
  have 2: "dropWhile isdigit (ds' @ lit @ rest) = lit @ rest"
    using ds c nd by (intro dropWhile_all_append) auto
  have 3: "takeWhile isalpha (lit @ rest) = lit"
    using lit na by (intro takeWhile_all_append) auto
  have "isdigit c" using ds c by simp
  moreover have "drop (m_Current s) (m_Source s) = c # (ds' @ lit @ rest)" using d c by simp
  ultimately show ?thesis
    using ScanToken_eq [OF _ st, of c "ds' @ lit @ rest"]
    by (simp add: c 1 2 3 split: sum.splits)
qed

section \<open>Claims on the scanner\<close>

text \<open>
  C5 as stated: the text \<open>9223372036854775808\<close> is a maximal run of digits with no
  letter after it, and it is not accumulated under the multiplier 60: \<open>std::stoll\<close>
  raises \<open>std::out_of_range\<close> before \<open>AddValue\<close> is entered, and the parse fails.
\<close>

theorem C5_default_unit_counterexample:
  "ScanToken (CScanner_init ''9223372036854775808'' unit_table) = Inl OutOfRange
   \<and> Parse ''9223372036854775808'' = Inl OutOfRange"
proof -
  let ?s = "CScanner_init ''9223372036854775808'' unit_table"
  have "drop (m_Current ?s) (m_Source ?s) = CHR ''9'' # ''223372036854775808''"
    and "m_Start ?s = m_Current ?s"
    by (simp_all add: CScanner_init_def)
  then have "ScanToken ?s = Inl OutOfRange"
    by (simp add: ScanToken_eq isdigit_def stoll_def digit_value_def)
  moreover have "Parse ''9223372036854775808'' = Inl OutOfRange"
    by (simp add: Parse_scan_text scan_eval)
  ultimately show ?thesis by simp
qed

text \<open>
  C5, amended. When \<open>ScanToken\<close> starts at a maximal run of digits that no letter follows
  (another character follows, or the source ends) and the value of the run fits in a
  signed 64-bit integer, the scan raises no error and the value is handed to \<open>AddValue\<close>
  with the multiplier 60, the default unit of minutes; the text \<open>90\<close> parses to 5400
  seconds.
\<close>

theorem C5_default_unit_minutes:
  assumes "drop (m_Current s) (m_Source s) = ds @ rest" and "m_Start s = m_Current s"
    and "ds \<noteq> []" and "\<forall>c\<in>set ds. isdigit c"
    and "rest = [] \<or> (\<not> isdigit (hd rest) \<and> \<not> isalpha (hd rest))"
    and "stoll ds = Inr v"
  shows "ScanToken s = Inr (AddValue 60 v (s\<lparr>m_Current := m_Current s + length ds\<rparr>))
         \<and> v = decimal_value 0 ds
         \<and> Parse ''90'' = Inr 5400"
proof -
  have "ScanToken s =
    (case stoll ds of
       Inl e \<Rightarrow> Inl e
     | Inr v \<Rightarrow> Inr (s\<lparr>m_Current := m_Current s + length ds + length ([] :: string),
                       m_Result := accumulate (m_Tokens s) [] v (m_Result s)\<rparr>))"
    using assms(1-5) by (intro ScanToken_token) auto
  moreover have "AddValue 60 v (s\<lparr>m_Current := m_Current s + length ds\<rparr>)
      = s\<lparr>m_Current := m_Current s + length ds + length ([] :: string),
           m_Result := accumulate (m_Tokens s) [] v (m_Result s)\<rparr>"
    by (simp add: AddValue_def accumulate_def)
  moreover have "v = decimal_value 0 ds"
    using assms(6) stoll_digits [OF assms(3,4)] by (simp split: if_splits)
  moreover have "Parse ''90'' = Inr 5400"
    by (simp add: Parse_scan_text scan_eval)
  ultimately show ?thesis using assms(6) by simp
qed

theorem C5_default_unit_minutes_witness:
  "stoll ''90'' = Inr 90
   \<and> ScanToken (CScanner_init ''90'' unit_table)
     = Inr \<lparr>m_Source = ''90'', m_Tokens = unit_table, m_Result = [(60, 90)],
            m_Start = 0, m_Current = 2\<rparr>"
proof -
  let ?s = "CScanner_init ''90'' unit_table"
  have 1: "drop (m_Current ?s) (m_Source ?s) = ''90'' @ []" by (simp add: CScanner_init_def)
  have 2: "m_Start ?s = m_Current ?s" by (simp add: CScanner_init_def)
  have 3: "\<forall>c\<in>set ''90''. isdigit c" by (simp add: isdigit_def)
  have 4: "stoll ''90'' = Inr 90" by (simp add: stoll_def isdigit_def digit_value_def)
  show ?thesis
    using C5_default_unit_minutes [OF 1 2 _ 3 _ 4] 4
    by (simp add: CScanner_init_def AddValue_def contains_def)
qed

section \<open>Text before a token boundary\<close>

lemma takeWhile_append_stop:
  "z = [] \<or> \<not> P (hd z) \<Longrightarrow> takeWhile P (m @ z) = takeWhile P m"
  by (induction m) (auto simp: takeWhile_eq_Nil_iff)

lemma dropWhile_append_stop:
  "z = [] \<or> \<not> P (hd z) \<Longrightarrow> dropWhile P (m @ z) = dropWhile P m @ z"
  by (induction m) (cases z; auto)+

lemma last_dropWhile: "dropWhile P xs \<noteq> [] \<Longrightarrow> last (dropWhile P xs) = last xs"
  by (induction xs) (auto split: if_splits)

lemma scan_text_prefix:
  assumes "pre = [] \<or> \<not> isdigit (last pre)"
    and x: "x = [] \<or> \<not> isalpha (hd x)" and y: "y = [] \<or> \<not> isalpha (hd y)"
    and xy: "\<And>r. scan_text tk x r = scan_text tk y r"
  shows "scan_text tk (pre @ x) r = scan_text tk (pre @ y) r"
  using assms(1)
proof (induction "length pre" arbitrary: pre r rule: less_induct)
  case less
  show ?case
  proof (cases pre)
    case Nil
    then show ?thesis using xy by simp
  next
    case (Cons c cs)
    show ?thesis
    proof (cases "isdigit c")
      case False
      have "cs = [] \<or> \<not> isdigit (last cs)" using less.prems Cons by (auto split: if_splits)
      then have "scan_text tk (cs @ x) r = scan_text tk (cs @ y) r"
        using less.hyps [of cs r] Cons by simp
      then show ?thesis using Cons False by simp
    next
      case True
      have cs: "cs \<noteq> []" "\<not> isdigit (last cs)"
        using less.prems Cons True by (auto split: if_splits)
      let ?m = "dropWhile isdigit cs"
      let ?p = "dropWhile isalpha ?m"
      have mem: "last cs \<in> set cs" using cs by simp
      have t: "takeWhile isdigit (cs @ z) = takeWhile isdigit cs" for z
        using mem cs(2) by (rule takeWhile_append1)
      have d: "dropWhile isdigit (cs @ z) = ?m @ z" for z
        using mem cs(2) by (rule dropWhile_append1)
      have p: "?p = [] \<or> \<not> isdigit (last ?p)"
      proof (cases "?p = []")
        case False
        have "?m \<noteq> []"
        proof
          assume "?m = []"
          then have "?p = []" by (simp only: dropWhile.simps)
          with False show False by contradiction
        qed
        then have "last ?p = last cs" using False by (simp add: last_dropWhile)
        then show ?thesis using cs by simp
      qed simp
      have "length ?p \<le> length cs"
        by (rule order_trans [OF length_dropWhile_le length_dropWhile_le])
      then have len: "length ?p < length pre" using Cons by simp
      have ih: "scan_text tk (?p @ x) r' = scan_text tk (?p @ y) r'" for r'
        using less.hyps [OF len p] .
      have "scan_text tk (pre @ z) r =
          (case stoll (c # takeWhile isdigit cs) of
             Inl e \<Rightarrow> Inl e
           | Inr v \<Rightarrow> scan_text tk (?p @ z) (accumulate tk (takeWhile isalpha ?m) v r))"
        if "z = [] \<or> \<not> isalpha (hd z)" for z
        using True that
        by (simp add: Cons t d takeWhile_append_stop dropWhile_append_stop split: sum.splits)
      from this [OF x] this [OF y] show ?thesis by (simp add: ih split: sum.splits)
    qed
  qed
qed


text \<open>
  C6 as stated: the token \<open>9223372036854775808x\<close> has the unit literal \<open>x\<close>, which is
  not in the unit table, and parsing it raises \<open>std::out_of_range\<close>, while the text
  without the token parses to 0.
\<close>

theorem C6_unknown_unit_counterexample:
  "\<not> contains unit_table ''x''
   \<and> Parse ''9223372036854775808x'' = Inl OutOfRange
   \<and> Parse [] = Inr 0"
  by (simp add: Parse_scan_text scan_eval)

text \<open>
  C6, amended. A token whose number fits in a signed 64-bit integer and whose non-empty
  unit literal is not in the unit table is dropped: \<open>ScanToken\<close> returns without an
  error, moves past the token and leaves the accumulator as it was, and the text parses
  to the same result as the text with the token removed.
\<close>

theorem C6_unknown_unit_dropped:
  assumes "ds \<noteq> []" and "\<forall>c\<in>set ds. isdigit c"
    and "lit \<noteq> []" and "\<forall>c\<in>set lit. isalpha c"
    and "\<not> contains unit_table lit"
    and "pre = [] \<or> \<not> isdigit (last pre)"
    and "post = [] \<or> \<not> isalpha (hd post)"
    and "stoll ds = Inr v"
  shows "Parse (pre @ ds @ lit @ post) = Parse (pre @ post)
         \<and> (\<forall>s. m_Tokens s = unit_table \<and> m_Start s = m_Current s
                \<and> drop (m_Current s) (m_Source s) = ds @ lit @ post
              \<longrightarrow> ScanToken s = Inr (s\<lparr>m_Current := m_Current s + length ds + length lit\<rparr>))"
proof -
  have acc: "accumulate unit_table lit v r = r" for r
    using assms(3,5) by (simp add: accumulate_def contains_def)
  have rest: "post = [] \<or> (\<not> isalpha (hd post) \<and> (lit = [] \<longrightarrow> \<not> isdigit (hd post)))"
    using assms(3,7) by simp
  have tok: "scan_text unit_table (ds @ lit @ post) r = scan_text unit_table post r" for r
    using scan_text_token [OF assms(1,2,4) rest, of unit_table r] assms(8) by (simp add: acc)
  have x: "ds @ lit @ post = [] \<or> \<not> isalpha (hd (ds @ lit @ post))"
    using assms(1,2) by (cases ds) (auto dest: isdigit_not_isalpha)
  have "scan_text unit_table (pre @ ds @ lit @ post) [] = scan_text unit_table (pre @ post) []"
    using assms(6) x assms(7) tok by (rule scan_text_prefix)
  then have 1: "Parse (pre @ ds @ lit @ post) = Parse (pre @ post)"
    by (simp add: Parse_scan_text)
  have 2: "ScanToken s = Inr (s\<lparr>m_Current := m_Current s + length ds + length lit\<rparr>)"
    if "m_Tokens s = unit_table" "m_Start s = m_Current s"
       "drop (m_Current s) (m_Source s) = ds @ lit @ post" for s
    using ScanToken_token [OF that(3,2) assms(1,2,4) rest] assms(8) that(1)
    by (simp add: acc)
  from 1 2 show ?thesis by blast
qed

theorem C6_unknown_unit_dropped_witness:
  "Parse ''1h 5xyz 2m'' = Parse ''1h  2m'' \<and> Parse ''1h  2m'' = Inr 3720
   \<and> ScanToken \<lparr>m_Source = ''1h 5xyz 2m'', m_Tokens = unit_table, m_Result = [(3600, 1)],
                  m_Start = 3, m_Current = 3\<rparr>
       = Inr \<lparr>m_Source = ''1h 5xyz 2m'', m_Tokens = unit_table, m_Result = [(3600, 1)],
              m_Start = 3, m_Current = 7\<rparr>"
proof -
  let ?s = "\<lparr>m_Source = ''1h 5xyz 2m'', m_Tokens = unit_table, m_Result = [(3600, 1)],
             m_Start = 3, m_Current = 3\<rparr>"
  have 1: "\<forall>c\<in>set ''5''. isdigit c" by (simp add: isdigit_def)
  have 2: "\<forall>c\<in>set ''xyz''. isalpha c" by (simp add: isalpha_def)
  have 3: "\<not> contains unit_table ''xyz''" by (simp add: contains_def unit_table_def)
  have 4: "''1h '' = [] \<or> \<not> isdigit (last ''1h '')" by (simp add: isdigit_def)
  have 5: "'' 2m'' = [] \<or> \<not> isalpha (hd '' 2m'')" by (simp add: isalpha_def)
  have 6: "stoll ''5'' = Inr 5" by (simp add: stoll_def isdigit_def digit_value_def)
  have 7: "Parse ''1h  2m'' = Inr 3720" by (simp add: Parse_scan_text scan_eval)
  have 8: "m_Tokens ?s = unit_table \<and> m_Start ?s = m_Current ?s
           \<and> drop (m_Current ?s) (m_Source ?s) = ''5'' @ ''xyz'' @ '' 2m''"
    by simp
  have 9: "ScanToken ?s = Inr (?s\<lparr>m_Current := m_Current ?s + length ''5'' + length ''xyz''\<rparr>)"
    using C6_unknown_unit_dropped [OF _ 1 _ 2 3 4 5 6] 8 by blast
  show ?thesis
    using C6_unknown_unit_dropped [OF _ 1 _ 2 3 4 5 6] 7 9 by simp
qed

section \<open>Parsing what \<open>toString\<close> prints\<close>

lemma fold_total_wrapped:
  "fold (\<lambda>(Multiplier, Value) TotalDuration. wrap64 (TotalDuration + wrap64 (Multiplier * Value)))
     r (wrap64 a) = wrap64 (a + (\<Sum>(k, v)\<leftarrow>r. k * v))"
proof (induction r arbitrary: a)
  case Nil
  show ?case by simp
next
  case (Cons e r)
  obtain k v where e: "e = (k, v)" by (cases e)
  have "wrap64 (wrap64 a + wrap64 (k * v)) = wrap64 (a + k * v)"
    by (simp only: wrap64_add_left wrap64_add_right)
  then show ?case using Cons.IH [of "a + k * v"] by (simp add: e add.assoc)
qed

lemma total_of_sum: "total_of r = wrap64 (\<Sum>(k, v)\<leftarrow>r. k * v)"
proof -
  have "(0 :: int) = wrap64 0" by (simp add: wrap64_def)
  then have "total_of r = fold (\<lambda>(Multiplier, Value) TotalDuration.
      wrap64 (TotalDuration + wrap64 (Multiplier * Value))) r (wrap64 0)"
    by (simp add: total_of_def)
  then show ?thesis by (simp only: fold_total_wrapped) simp
qed

lemma scan_text_piece:
  assumes "0 \<le> n" and "n < 2 ^ 63" and "isalpha u"
  shows "scan_text tk ((if 0 < n then format_int n @ [u, CHR '' ''] else []) @ X) r
         = scan_text tk X (if 0 < n then accumulate tk [u] n r else r)"
proof (cases "0 < n")
  case True
  have ds: "format_int n \<noteq> []" "\<forall>c\<in>set (format_int n). isdigit c"
    using assms(1) format_nat_digits [of _ "nat n"] by (auto simp: format_int_def format_nat_nonempty)
  have lit: "\<forall>c\<in>set [u]. isalpha c" using assms(3) by simp
  have sp: "\<not> isalpha (CHR '' '')" "\<not> isdigit (CHR '' '')" by (simp_all add: isalpha_def isdigit_def)
  have rest: "CHR '' '' # X = [] \<or> (\<not> isalpha (hd (CHR '' '' # X)) \<and> ([u] = [] \<longrightarrow> \<not> isdigit (hd (CHR '' '' # X))))"
    using sp by simp
  have "scan_text tk (format_int n @ [u] @ (CHR '' '' # X)) r
        = scan_text tk (CHR '' '' # X) (accumulate tk [u] n r)"
    using scan_text_token [OF ds lit rest, of tk r] stoll_format_int [OF assms(1,2)] by simp
  also have "\<dots> = scan_text tk X (accumulate tk [u] n r)" using sp by simp
  finally show ?thesis using True by simp
next
  case False
  then show ?thesis by simp
qed

lemma scan_text_last:
  assumes "0 \<le> n" and "n < 2 ^ 63" and "isalpha u"
  shows "scan_text tk (format_int n @ [u]) r = Inr (accumulate tk [u] n r)"
proof -
  have ds: "format_int n \<noteq> []" "\<forall>c\<in>set (format_int n). isdigit c"
    using assms(1) format_nat_digits [of _ "nat n"] by (auto simp: format_int_def format_nat_nonempty)
  have lit: "\<forall>c\<in>set [u]. isalpha c" using assms(3) by simp
  have rest: "([] :: string) = [] \<or> (\<not> isalpha (hd []) \<and> ([u] = [] \<longrightarrow> \<not> isdigit (hd [])))"
    by simp
  show ?thesis
    using scan_text_token [OF ds lit rest, of tk r] stoll_format_int [OF assms(1,2)] by simp
qed

lemma toString_pieces:
  "toString p =
     (if 0 < m_Days p then format_int (m_Days p) @ [CHR ''d'', CHR '' ''] else [])
     @ (if 0 < m_Hours p then format_int (m_Hours p) @ [CHR ''h'', CHR '' ''] else [])
     @ (if 0 < m_Minutes p then format_int (m_Minutes p) @ [CHR ''m'', CHR '' ''] else [])
     @ (if 0 < m_Seconds p \<or> \<not> (0 < m_Days p \<or> 0 < m_Hours p \<or> 0 < m_Minutes p)
        then format_int (m_Seconds p) @ [CHR ''s''] else [])"
  by (auto simp: toString_def Let_def format_int_def format_nat_nonempty)

lemma parse_components:
  assumes d: "0 \<le> d" "d < 2 ^ 63" and h: "0 \<le> h" "h < 2 ^ 63"
    and m: "0 \<le> m" "m < 2 ^ 63" and s: "0 \<le> s" "s < 2 ^ 63"
  shows "Parse
     ((if 0 < d then format_int d @ [CHR ''d'', CHR '' ''] else [])
      @ (if 0 < h then format_int h @ [CHR ''h'', CHR '' ''] else [])
      @ (if 0 < m then format_int m @ [CHR ''m'', CHR '' ''] else [])
      @ (if 0 < s \<or> \<not> (0 < d \<or> 0 < h \<or> 0 < m) then format_int s @ [CHR ''s''] else []))
     = Inr (wrap64 (d * 86400 + h * 3600 + m * 60 + s))"
proof -
  have al: "isalpha (CHR ''d'')" "isalpha (CHR ''h'')" "isalpha (CHR ''m'')" "isalpha (CHR ''s'')"
    by (simp_all add: isalpha_def)
  have z: "0 < d \<longleftrightarrow> d \<noteq> 0" "0 < h \<longleftrightarrow> h \<noteq> 0" "0 < m \<longleftrightarrow> m \<noteq> 0" "0 < s \<longleftrightarrow> s \<noteq> 0"
    using d h m s by auto
  have fin: "scan_text unit_table
       (if 0 < s \<or> \<not> (0 < d \<or> 0 < h \<or> 0 < m) then format_int s @ [CHR ''s''] else []) r
     = Inr (if 0 < s \<or> \<not> (0 < d \<or> 0 < h \<or> 0 < m) then accumulate unit_table ''s'' s r else r)" for r
    using scan_text_last [OF s al(4), of unit_table r] by simp
  show ?thesis
    unfolding Parse_scan_text
      scan_text_piece [OF d al(1)] scan_text_piece [OF h al(2)] scan_text_piece [OF m al(3)] fin
    by (simp add: z total_of_sum accumulate_def contains_def unit_table_def) (simp add: ac_simps)
qed


text \<open>
  C8. For every non-negative 64-bit total \<open>T\<close>, the text that \<open>toString\<close> prints for
  the value constructed from \<open>T\<close> parses, without an error, to \<open>T\<close> again, so the value
  reconstructed from the parse has the total \<open>T\<close>.
\<close>

theorem C8_toString_roundtrip:
  assumes "0 \<le> T" and "int64 T"
  shows "Parse (toString (CTimePeriod_seconds T)) = Inr T
         \<and> ParseFactory (toString (CTimePeriod_seconds T)) = Inr (CTimePeriod_seconds T)
         \<and> duration (CTimePeriod_seconds T) = T"
proof -
  let ?q = "initial\<lparr>m_TotalDuration := T\<rparr>"
  let ?p = "CTimePeriod_seconds T"
  have p: "?p = Validate ?q" by (simp add: CTimePeriod_seconds_def)
  have q: "0 \<le> m_TotalDuration ?q" using assms(1) by simp
  have T: "T < 2 ^ 63" using assms(2) by (simp add: int64_def)
  have id: "m_Days ?p * 86400 + m_Hours ?p * 3600 + m_Minutes ?p * 60 + m_Seconds ?p = T"
    unfolding p using Validate_identity [of ?q] by simp
  have b: "0 \<le> m_Days ?p" "0 \<le> m_Hours ?p" "m_Hours ?p < 24" "0 \<le> m_Minutes ?p"
    "m_Minutes ?p < 60" "0 \<le> m_Seconds ?p" "m_Seconds ?p < 60"
    unfolding p using Validate_bounds [OF q] by simp_all
  have "m_Days ?p \<le> T" using id b by linarith
  then have d: "m_Days ?p < 2 ^ 63" using T by linarith
  have h: "m_Hours ?p < 2 ^ 63" using b(3) by simp
  have m: "m_Minutes ?p < 2 ^ 63" using b(5) by simp
  have s: "m_Seconds ?p < 2 ^ 63" using b(7) by simp
  have "Parse (toString ?p) = Inr (wrap64 T)"
    unfolding toString_pieces [of ?p]
    using parse_components [OF b(1) d b(2) h b(4) m b(6) s] by (simp only: id)
  then have 1: "Parse (toString ?p) = Inr T" using assms(2) by (simp add: wrap64_id)
  then have 2: "ParseFactory (toString ?p) = Inr ?p" by (simp add: ParseFactory_def)
  have 3: "duration ?p = T" by (simp add: p duration_def Validate_fields(1))
  from 1 2 3 show ?thesis by blast
qed

theorem C8_toString_roundtrip_witness:
  "toString (CTimePeriod_seconds 93784) = ''1d 2h 3m 4s''
   \<and> Parse (toString (CTimePeriod_seconds 93784)) = Inr 93784
   \<and> Parse (toString (CTimePeriod_seconds 5400)) = Inr 5400"
proof -
  have 1: "toString (CTimePeriod_seconds 93784) = ''1d 2h 3m 4s''" by code_simp
  have i: "int64 93784" "int64 5400" by (simp_all add: int64_def)
  show ?thesis
    using C8_toString_roundtrip [OF _ i(1)] C8_toString_roundtrip [OF _ i(2)] 1 by simp
qed

end
